theory Spec2Isabelle
  imports Complex_Main "HOL-Library.Product_Lexorder" "HOL-Library.List_Lexorder"
begin

section \<open>Numbers and vectors\<close>

text \<open>
  The simulation computes on IEEE doubles held in numpy arrays. The model keeps the
  special values that decide control flow (\<open>nan\<close> and the two infinities) and takes the
  finite values as exact reals: rounding, overflow and the sign of zero are not modelled.
  Where a statement below evaluates the arithmetic, it does so on small integers, on
  which the doubles compute exactly; the general statements about ticks do not depend on
  the values that the arithmetic yields.
  numpy does not raise on a division by zero, it warns and yields \<open>nan\<close> (for 0/0) or an
  infinity, and every ordering comparison with \<open>nan\<close> is false.
\<close>

datatype f64 = Fin real | PInf | NInf | NaN

fun fneg :: "f64 \<Rightarrow> f64" where
  "fneg (Fin a) = Fin (- a)"
| "fneg PInf = NInf"
| "fneg NInf = PInf"
| "fneg NaN = NaN"

fun fadd :: "f64 \<Rightarrow> f64 \<Rightarrow> f64" where
  "fadd (Fin a) (Fin b) = Fin (a + b)"
| "fadd NaN _ = NaN"
| "fadd _ NaN = NaN"
| "fadd PInf NInf = NaN"
| "fadd NInf PInf = NaN"
| "fadd PInf _ = PInf"
| "fadd _ PInf = PInf"
| "fadd NInf _ = NInf"
| "fadd _ NInf = NInf"

definition fsub :: "f64 \<Rightarrow> f64 \<Rightarrow> f64" where
  "fsub a b = fadd a (fneg b)"

text \<open>The sign of a value that is not \<open>nan\<close>: \<open>-1\<close>, \<open>0\<close> or \<open>1\<close>.\<close>

fun fsgn :: "f64 \<Rightarrow> real" where
  "fsgn (Fin a) = sgn a"
| "fsgn PInf = 1"
| "fsgn NInf = - 1"
| "fsgn NaN = 0"

definition signed_inf :: "real \<Rightarrow> f64" where
  "signed_inf s = (if s = 0 then NaN else if 0 < s then PInf else NInf)"

fun fmul :: "f64 \<Rightarrow> f64 \<Rightarrow> f64" where
  "fmul (Fin a) (Fin b) = Fin (a * b)"
| "fmul NaN _ = NaN"
| "fmul _ NaN = NaN"
| "fmul a b = signed_inf (fsgn a * fsgn b)"

fun fdiv :: "f64 \<Rightarrow> f64 \<Rightarrow> f64" where
  "fdiv (Fin a) (Fin b) = (if b = 0 then signed_inf (sgn a) else Fin (a / b))"
| "fdiv NaN _ = NaN"
| "fdiv _ NaN = NaN"
| "fdiv (Fin a) _ = Fin 0"
| "fdiv a (Fin b) = signed_inf (fsgn a * (if b < 0 then - 1 else 1))"
| "fdiv _ _ = NaN"

fun fsqrt :: "f64 \<Rightarrow> f64" where
  "fsqrt (Fin a) = (if a < 0 then NaN else Fin (sqrt a))"
| "fsqrt PInf = PInf"
| "fsqrt NInf = NaN"
| "fsqrt NaN = NaN"

fun flt :: "f64 \<Rightarrow> f64 \<Rightarrow> bool" where
  "flt (Fin a) (Fin b) = (a < b)"
| "flt NaN _ = False"
| "flt _ NaN = False"
| "flt _ NInf = False"
| "flt PInf _ = False"
| "flt _ _ = True"

fun fle :: "f64 \<Rightarrow> f64 \<Rightarrow> bool" where
  "fle (Fin a) (Fin b) = (a \<le> b)"
| "fle NaN _ = False"
| "fle _ NaN = False"
| "fle NInf _ = True"
| "fle _ PInf = True"
| "fle _ _ = False"

text \<open>Python's builtin \<open>min(a, b)\<close> keeps \<open>a\<close> unless \<open>b < a\<close>.\<close>

definition pymin :: "f64 \<Rightarrow> f64 \<Rightarrow> f64" where
  "pymin a b = (if flt b a then b else a)"

text \<open>A coordinate pair as it is configured (a tuple of finite numbers), and a numpy
  array of two doubles.\<close>

type_synonym point = "real \<times> real"
type_synonym vec = "f64 \<times> f64"

definition np_array :: "point \<Rightarrow> vec" where
  "np_array p = (Fin (fst p), Fin (snd p))"

definition vsub :: "vec \<Rightarrow> vec \<Rightarrow> vec" where
  "vsub a b = (fsub (fst a) (fst b), fsub (snd a) (snd b))"

definition vadd :: "vec \<Rightarrow> vec \<Rightarrow> vec" where
  "vadd a b = (fadd (fst a) (fst b), fadd (snd a) (snd b))"

definition vdiv :: "vec \<Rightarrow> f64 \<Rightarrow> vec" where
  "vdiv a d = (fdiv (fst a) d, fdiv (snd a) d)"

definition vscale :: "vec \<Rightarrow> f64 \<Rightarrow> vec" where
  "vscale a k = (fmul (fst a) k, fmul (snd a) k)"

text \<open>\<open>np.linalg.norm\<close> of a two-element array.\<close>

definition vnorm :: "vec \<Rightarrow> f64" where
  "vnorm a = fsqrt (fadd (fmul (fst a) (fst a)) (fmul (snd a) (snd a)))"

section \<open>The event sink\<close>

text \<open>
  \<open>Cul.log_data\<close> inserts one row per call and commits. The sink is modelled as the list
  of rows in insertion order; the wall-clock timestamp of a row is left out.
\<close>

record event =
  ship_name :: string
  metric :: string
  val :: f64
  pos_x :: "f64 option"
  pos_y :: "f64 option"

definition log_data :: "event list \<Rightarrow> string \<Rightarrow> string \<Rightarrow> f64 \<Rightarrow> vec option \<Rightarrow> event list" where
  "log_data sink nm m v p =
     (let (px, py) = (case p of Some q \<Rightarrow> (Some (fst q), Some (snd q)) | None \<Rightarrow> (None, None))
      in sink @ [\<lparr>ship_name = nm, metric = m, val = v, pos_x = px, pos_y = py\<rparr>])"

section \<open>Ship\<close>

record ship =
  name :: string
  pos :: vec
  speed :: real
  path :: "point list"
  target_index :: nat
  target :: "point option"

definition Ship :: "string \<Rightarrow> point \<Rightarrow> real \<Rightarrow> ship" where
  "Ship nm start_pos sp =
     \<lparr>name = nm, pos = np_array start_pos, speed = sp, path = [], target_index = 0,
      target = None\<rparr>"

definition set_path :: "ship \<Rightarrow> point list \<Rightarrow> event list \<Rightarrow> ship \<times> event list" where
  "set_path s p sink =
     (if p = [] \<or> length p < 2 then (s, sink)
      else
        let s1 = s\<lparr>path := p, target_index := 1\<rparr>;
            s2 = s1\<lparr>target := Some (path s1 ! target_index s1)\<rparr>
        in (s2, log_data sink (name s2) ''route_enter'' (Fin 0) (Some (pos s2))))"

definition update :: "ship \<Rightarrow> event list \<Rightarrow> ship \<times> event list" where
  "update s sink =
     (case target s of
        None \<Rightarrow> (s, sink)
      | Some tgt \<Rightarrow>
          let direction = vsub (np_array tgt) (pos s);
              dist_to_target = vnorm direction;
              step = pymin (Fin (speed s)) dist_to_target;
              s1 = s\<lparr>pos := vadd (pos s) (vscale (vdiv direction dist_to_target) step)\<rparr>;
              sink1 = log_data sink (name s1) ''distance_traveled'' step (Some (pos s1))
          in
            if fle dist_to_target (Fin (speed s1)) then
              let sink2 = log_data sink1 (name s1) ''route_exit'' dist_to_target (Some (pos s1));
                  s2 = s1\<lparr>target_index := target_index s1 + 1\<rparr>
              in
                if target_index s2 < length (path s2) then
                  let s3 = s2\<lparr>target := Some (path s2 ! target_index s2)\<rparr>
                  in (s3, log_data sink2 (name s3) ''route_enter'' (Fin 0) (Some (pos s3)))
                else (s2\<lparr>target := None\<rparr>, sink2)
            else (s1, sink1))"

text \<open>The driver's frame loop calls \<open>update\<close> once per frame; \<open>ticks n\<close> is \<open>n\<close> calls in a row
  on one ship, with the sink threaded through.\<close>

fun ticks :: "nat \<Rightarrow> ship \<times> event list \<Rightarrow> ship \<times> event list" where
  "ticks 0 st = st"
| "ticks (Suc n) st = ticks n (update (fst st) (snd st))"

section \<open>Router\<close>

text \<open>
  Failures of a run. \<open>KeyError\<close> is Python's exception for a missing dictionary key.
  \<open>NonFinite\<close> marks a run that leaves the model: with speed 0 a travel time is an
  infinity or \<open>nan\<close>, and the order in which the heap returns such keys is not followed
  here. Waypoint coordinates are finite numbers, and travel times are exact reals.
\<close>

datatype fault = KeyError | NonFinite

type_synonym 'n entry = "real \<times> 'n \<times> 'n list"

text \<open>
  \<open>heapq\<close> keeps the queue as a list in heap order and \<open>heappop\<close> returns its least
  tuple; tuples compare lexicographically (time, then node, then path). The model keeps
  the contents of the queue and takes the least one out.
\<close>

definition heappush :: "'a list \<Rightarrow> 'a \<Rightarrow> 'a list" where
  "heappush q x = q @ [x]"

definition heappop :: "'a::linorder list \<Rightarrow> 'a \<times> 'a list" where
  "heappop q = (let m = Min (set q) in (m, remove1 m q))"

text \<open>\<open>np.linalg.norm(np.array(a) - np.array(b))\<close> on finite coordinates.\<close>

definition euclid :: "point \<Rightarrow> point \<Rightarrow> real" where
  "euclid a b = sqrt ((fst a - fst b)\<^sup>2 + (snd a - snd b)\<^sup>2)"

text \<open>\<open>graph.get(node, [])\<close>\<close>

definition neighbors :: "('n \<rightharpoonup> 'n list) \<Rightarrow> 'n \<Rightarrow> 'n list" where
  "neighbors graph node = (case graph node of Some ns \<Rightarrow> ns | None \<Rightarrow> [])"

text \<open>The body of the \<open>for neighbor in ...\<close> loop, over the neighbours still to do.\<close>

fun push_neighbors ::
  "'n list \<Rightarrow> 'n \<Rightarrow> real \<Rightarrow> 'n list \<Rightarrow> ('n \<rightharpoonup> point) \<Rightarrow> real \<Rightarrow> 'n entry list
     \<Rightarrow> fault + 'n entry list" where
  "push_neighbors [] node total_time pth positions ship_speed queue = Inr queue"
| "push_neighbors (neighbor # rest) node total_time pth positions ship_speed queue =
     (case positions neighbor of
        None \<Rightarrow> Inl KeyError
      | Some pn \<Rightarrow>
          (case positions node of
             None \<Rightarrow> Inl KeyError
           | Some pc \<Rightarrow>
               let dist = euclid pn pc in
               if ship_speed = 0 then Inl NonFinite
               else
                 let travel_time = dist / ship_speed in
                 push_neighbors rest node total_time pth positions ship_speed
                   (heappush queue (total_time + travel_time, neighbor, pth @ [neighbor]))))"

text \<open>The \<open>while queue\<close> loop. It need not end (a negative speed makes every round trip
  cheaper), so the result is an option: \<open>None\<close> is a run that never returns.\<close>

partial_function (option) search ::
  "('n::linorder \<rightharpoonup> 'n list) \<Rightarrow> 'n \<Rightarrow> ('n \<rightharpoonup> point) \<Rightarrow> real \<Rightarrow> 'n entry list \<Rightarrow> ('n \<rightharpoonup> real)
     \<Rightarrow> (fault + 'n list option) option" where
  "search graph dest positions ship_speed queue visited =
     (if queue = [] then Some (Inr None)
      else
        case heappop queue of
          ((total_time, node, pth), queue1) \<Rightarrow>
            if node = dest then Some (Inr (Some pth))
            else if (case visited node of Some t \<Rightarrow> t \<le> total_time | None \<Rightarrow> False)
            then search graph dest positions ship_speed queue1 visited
            else
              (case push_neighbors (neighbors graph node) node total_time pth positions
                      ship_speed queue1 of
                 Inl e \<Rightarrow> Some (Inl e)
               | Inr queue2 \<Rightarrow>
                   search graph dest positions ship_speed queue2
                     (visited(node \<mapsto> total_time))))"

definition fastest_path ::
  "('n::linorder \<rightharpoonup> 'n list) \<Rightarrow> 'n \<Rightarrow> 'n \<Rightarrow> ('n \<rightharpoonup> point) \<Rightarrow> real
     \<Rightarrow> (fault + 'n list option) option" where
  "fastest_path graph start dest positions ship_speed =
     search graph dest positions ship_speed [(0, start, [start])] Map.empty"

section \<open>Driver\<close>

text \<open>\<open>graph.setdefault(a, []).append(b)\<close>\<close>

definition setdefault_append :: "('n \<rightharpoonup> 'n list) \<Rightarrow> 'n \<Rightarrow> 'n \<Rightarrow> ('n \<rightharpoonup> 'n list)" where
  "setdefault_append graph a b = graph(a \<mapsto> neighbors graph a @ [b])"

fun build_graph :: "('n \<times> 'n) list \<Rightarrow> ('n \<rightharpoonup> 'n list) \<Rightarrow> ('n \<rightharpoonup> 'n list)" where
  "build_graph [] graph = graph"
| "build_graph ((a, b) # routes) graph =
     build_graph routes (setdefault_append (setdefault_append graph a b) b a)"

text \<open>One entry of \<open>ships_data\<close>: the dictionary with the keys name, start, end, speed.\<close>

record 'n ship_cfg =
  cfg_name :: string
  cfg_start :: 'n
  cfg_end :: 'n
  cfg_speed :: real

text \<open>\<open>[planets[p] for p in path]\<close>\<close>

fun lookup_all :: "('n \<rightharpoonup> point) \<Rightarrow> 'n list \<Rightarrow> fault + point list" where
  "lookup_all planets [] = Inr []"
| "lookup_all planets (p # ps) =
     (case planets p of
        None \<Rightarrow> Inl KeyError
      | Some c \<Rightarrow> (case lookup_all planets ps of Inl e \<Rightarrow> Inl e | Inr cs \<Rightarrow> Inr (c # cs)))"

text \<open>
  The loop of \<open>main\<close> over \<open>ships_data\<close>. Its state is the list \<open>ships\<close> of active ships and
  the sink. \<open>if path:\<close> is false for \<open>None\<close> and for an empty list; the message printed in
  the else branch is not part of the state.
\<close>

fun setup_ships ::
  "('n::linorder \<rightharpoonup> 'n list) \<Rightarrow> ('n \<rightharpoonup> point) \<Rightarrow> 'n ship_cfg list \<Rightarrow> ship list \<times> event list
     \<Rightarrow> (fault + ship list \<times> event list) option" where
  "setup_ships graph planets [] st = Some (Inr st)"
| "setup_ships graph planets (s # ships_data) st =
     (case planets (cfg_start s) of
        None \<Rightarrow> Some (Inl KeyError)
      | Some start_pos \<Rightarrow>
          let ship = Ship (cfg_name s) start_pos (cfg_speed s) in
          (case fastest_path graph (cfg_start s) (cfg_end s) planets (speed ship) of
             None \<Rightarrow> None
           | Some (Inl e) \<Rightarrow> Some (Inl e)
           | Some (Inr (Some (n # ns))) \<Rightarrow>
               (case lookup_all planets (n # ns) of
                  Inl e \<Rightarrow> Some (Inl e)
                | Inr coords \<Rightarrow>
                    let (ship1, sink1) = set_path ship coords (snd st)
                    in setup_ships graph planets ships_data (fst st @ [ship1], sink1))
           | Some (Inr _) \<Rightarrow> setup_ships graph planets ships_data st))"

section \<open>Notions the properties are stated with\<close>

text \<open>An edge-path of the adjacency: a non-empty node sequence in which every node is
  followed by one of its neighbours.\<close>

fun is_path :: "('n \<rightharpoonup> 'n list) \<Rightarrow> 'n list \<Rightarrow> bool" where
  "is_path graph [] = False"
| "is_path graph [x] = True"
| "is_path graph (x # y # r) = (y \<in> set (neighbors graph x) \<and> is_path graph (y # r))"

definition connects :: "('n \<rightharpoonup> 'n list) \<Rightarrow> 'n \<Rightarrow> 'n \<Rightarrow> 'n list \<Rightarrow> bool" where
  "connects graph start dest p = (is_path graph p \<and> hd p = start \<and> last p = dest)"

text \<open>The travel time of one edge and the total time of a node sequence: the sum over
  consecutive pairs of Euclidean distance divided by speed, defined when every waypoint
  involved has coordinates.\<close>

definition travel_time :: "('n \<rightharpoonup> point) \<Rightarrow> real \<Rightarrow> 'n \<Rightarrow> 'n \<Rightarrow> real option" where
  "travel_time positions ship_speed x y =
     (case (positions x, positions y) of
        (Some px, Some py) \<Rightarrow> Some (euclid py px / ship_speed)
      | _ \<Rightarrow> None)"

fun total_time :: "('n \<rightharpoonup> point) \<Rightarrow> real \<Rightarrow> 'n list \<Rightarrow> real option" where
  "total_time positions ship_speed [] = Some 0"
| "total_time positions ship_speed [x] = Some 0"
| "total_time positions ship_speed (x # y # r) =
     (case (travel_time positions ship_speed x y, total_time positions ship_speed (y # r)) of
        (Some w, Some t) \<Rightarrow> Some (w + t)
      | _ \<Rightarrow> None)"





section \<open>Invariants of the search\<close>

text \<open>
  A bound \<open>b\<close> for node \<open>x\<close> is covered when the queue holds an entry for \<open>x\<close> with a time
  of at most \<open>b\<close>, or \<open>x\<close> is visited with such a time. The invariant of the loop: every
  entry carries an edge-path from the start to its node together with the total time of
  that path; the start is covered by 0; every edge leaving a visited node is relaxed (its
  end is covered by the visited time plus the travel time); the goal is never visited.
  \<open>search_post\<close> is what the loop returns, and \<open>term_inv\<close> is what makes it end when
  travel times are not negative: visited times are below every time in the queue.
\<close>

definition covered :: "'n entry list \<Rightarrow> ('n \<rightharpoonup> real) \<Rightarrow> 'n \<Rightarrow> real \<Rightarrow> bool" where
  "covered queue visited x b \<longleftrightarrow>
     (\<exists>e\<in>set queue. fst (snd e) = x \<and> fst e \<le> b) \<or> (\<exists>t. visited x = Some t \<and> t \<le> b)"

definition search_inv ::
  "('n \<rightharpoonup> 'n list) \<Rightarrow> ('n \<rightharpoonup> point) \<Rightarrow> real \<Rightarrow> 'n \<Rightarrow> 'n \<Rightarrow> 'n entry list \<Rightarrow> ('n \<rightharpoonup> real) \<Rightarrow> bool" where
  "search_inv graph positions ship_speed start dest queue visited \<longleftrightarrow>
     (\<forall>e\<in>set queue. connects graph start (fst (snd e)) (snd (snd e)) \<and>
        total_time positions ship_speed (snd (snd e)) = Some (fst e)) \<and>
     covered queue visited start 0 \<and>
     (\<forall>u tu x w. visited u = Some tu \<longrightarrow> x \<in> set (neighbors graph u) \<longrightarrow>
        travel_time positions ship_speed u x = Some w \<longrightarrow> covered queue visited x (tu + w)) \<and>
     visited dest = None"

definition search_post ::
  "('n \<rightharpoonup> 'n list) \<Rightarrow> ('n \<rightharpoonup> point) \<Rightarrow> real \<Rightarrow> 'n \<Rightarrow> 'n \<Rightarrow> 'n list option \<Rightarrow> bool" where
  "search_post graph positions ship_speed start dest r \<longleftrightarrow>
     (case r of
        None \<Rightarrow> (\<forall>p. connects graph start dest p \<longrightarrow> total_time positions ship_speed p = None)
      | Some p \<Rightarrow>
          connects graph start dest p \<and>
          (\<exists>t. total_time positions ship_speed p = Some t \<and>
             (\<forall>p' t'. connects graph start dest p' \<longrightarrow>
                total_time positions ship_speed p' = Some t' \<longrightarrow> t \<le> t')))"

definition term_inv :: "'n set \<Rightarrow> 'n entry list \<Rightarrow> ('n \<rightharpoonup> real) \<Rightarrow> bool" where
  "term_inv N queue visited \<longleftrightarrow>
     dom visited \<subseteq> N \<and> (\<forall>e\<in>set queue. fst (snd e) \<in> N) \<and>
     (\<forall>u tu. visited u = Some tu \<longrightarrow> (\<forall>e\<in>set queue. tu \<le> fst e))"

section \<open>Properties of the agent\<close>

lemmas ship_eval =
  update_def set_path_def Ship_def Let_def np_array_def vsub_def vadd_def vdiv_def
  vscale_def vnorm_def fsub_def pymin_def log_data_def signed_inf_def

text \<open>
  C9: \<open>update\<close> on an agent whose target is none is a no-op: the ship (position, path,
  target index, target) is returned as it is and nothing is appended to the sink.
\<close>

theorem update_idle_noop: "target s = None \<Longrightarrow> update s sink = (s, sink)"
  by (simp add: update_def)

theorem update_idle_noop_witness:
  "target (Ship ''Apollo'' (0, 0) 5) = None \<and>
   update (Ship ''Apollo'' (0, 0) 5) [] = (Ship ''Apollo'' (0, 0) 5, [])"
  using update_idle_noop [of "Ship ''Apollo'' (0, 0) 5" "[]"] by (simp add: Ship_def)

text \<open>
  C6: \<open>set_path\<close> with fewer than two points (the empty sequence included) changes
  neither the ship nor the sink. With two or more points it stores the path, sets the
  target index to 1 and the target to the second point, and appends exactly one
  \<open>route_enter\<close> row with value 0 at the ship's current position.
\<close>

theorem set_path_contract:
  "(length p < 2 \<longrightarrow> set_path s p sink = (s, sink)) \<and>
   (2 \<le> length p \<longrightarrow>
      set_path s p sink =
        (s\<lparr>path := p, target_index := 1, target := Some (p ! 1)\<rparr>,
         sink @ [\<lparr>ship_name = name s, metric = ''route_enter'', val = Fin 0,
                  pos_x = Some (fst (pos s)), pos_y = Some (snd (pos s))\<rparr>]))"
  by (auto simp add: set_path_def log_data_def Let_def)

theorem set_path_contract_witness:
  "length [(7, 7)::point] < 2 \<and>
   set_path (Ship ''Apollo'' (0, 0) 5) [(7, 7)] [] = (Ship ''Apollo'' (0, 0) 5, []) \<and>
   2 \<le> length [(0, 0), (3, 4)::point] \<and>
   set_path (Ship ''Apollo'' (0, 0) 5) [(0, 0), (3, 4)] [] =
     (\<lparr>name = ''Apollo'', pos = (Fin 0, Fin 0), speed = 5, path = [(0, 0), (3, 4)],
       target_index = 1, target = Some (3, 4)\<rparr>,
      [\<lparr>ship_name = ''Apollo'', metric = ''route_enter'', val = Fin 0,
        pos_x = Some (Fin 0), pos_y = Some (Fin 0)\<rparr>])"
  using set_path_contract [of "[(7, 7)]" "Ship ''Apollo'' (0, 0) 5" "[]"]
    set_path_contract [of "[(0, 0), (3, 4)]" "Ship ''Apollo'' (0, 0) 5" "[]"]
  by (simp add: Ship_def np_array_def)

text \<open>
  C1, evaluated on the code: the path \<open>[(0,0),(0,0),(5,5)]\<close> for a ship at \<open>(0,0)\<close>.
  The first tick raises nothing and advances to the next waypoint, but it divides the
  zero direction by the zero distance, so the position becomes \<open>(nan, nan)\<close> instead of
  staying \<open>(0,0)\<close>.
\<close>

theorem zero_length_leg_tick:
  "update (fst (set_path (Ship ''Apollo'' (0, 0) 1) [(0, 0), (0, 0), (5, 5)] [])) [] =
     (\<lparr>name = ''Apollo'', pos = (NaN, NaN), speed = 1, path = [(0, 0), (0, 0), (5, 5)],
       target_index = 2, target = Some (5, 5)\<rparr>,
      [\<lparr>ship_name = ''Apollo'', metric = ''distance_traveled'', val = Fin 0,
        pos_x = Some NaN, pos_y = Some NaN\<rparr>,
       \<lparr>ship_name = ''Apollo'', metric = ''route_exit'', val = Fin 0,
        pos_x = Some NaN, pos_y = Some NaN\<rparr>,
       \<lparr>ship_name = ''Apollo'', metric = ''route_enter'', val = Fin 0,
        pos_x = Some NaN, pos_y = Some NaN\<rparr>])"
  by (simp add: ship_eval)

text \<open>Once the position is \<open>(nan, nan)\<close> the arrival test is false on every later tick:
  the ship keeps its target and never becomes idle.\<close>

lemma nan_ship_stuck:
  "pos s = (NaN, NaN) \<Longrightarrow> target s = Some t \<Longrightarrow> fst (update s sink) = s"
  by (simp add: ship_eval)

subsection \<open>Flying a path\<close>







lemma nan_never_idle:
  "pos s = (NaN, NaN) \<Longrightarrow> target s = Some t \<Longrightarrow> fst (ticks n (s, sink)) = s"
proof (induction n arbitrary: sink)
  case 0
  then show ?case by simp
next
  case (Suc n)
  obtain x where "update s sink = (s, x)"
    using nan_ship_stuck [OF Suc.prems, of sink] by (cases "update s sink") simp
  then show ?case using Suc.IH [OF Suc.prems, of x] by simp
qed







section \<open>Properties of the router\<close>

text \<open>
  C10: with start equal to end, \<open>fastest_path\<close> returns the one-element path \<open>[start]\<close>,
  whatever the graph, the positions and the speed are: the first entry popped is the
  start itself.
\<close>

theorem fastest_path_same_node:
  "fastest_path graph s s positions ship_speed = Some (Inr (Some [s]))"
  by (simp add: fastest_path_def search.simps heappop_def)

section \<open>Properties of the driver\<close>

lemma neighbors_upd:
  "neighbors (g(a \<mapsto> ns)) x = (if x = a then ns else neighbors g x)"
  by (simp add: neighbors_def)

lemma neighbors_setdefault_append:
  "set (neighbors (setdefault_append g a b) x) =
     set (neighbors g x) \<union> (if x = a then {b} else {})"
  by (simp add: setdefault_append_def neighbors_upd)

lemma build_graph_mono: "set (neighbors g x) \<subseteq> set (neighbors (build_graph routes g) x)"
proof (induction routes arbitrary: g)
  case Nil
  then show ?case by simp
next
  case (Cons r routes)
  obtain a b where r: "r = (a, b)" by (cases r)
  have "set (neighbors g x) \<subseteq> set (neighbors (setdefault_append (setdefault_append g a b) b a) x)"
    by (auto simp: neighbors_setdefault_append)
  also have "\<dots> \<subseteq> set (neighbors (build_graph routes (setdefault_append (setdefault_append g a b) b a)) x)"
    by (rule Cons.IH)
  finally show ?case by (simp add: r)
qed

lemma build_graph_edge:
  "(a, b) \<in> set routes \<Longrightarrow>
     b \<in> set (neighbors (build_graph routes g) a) \<and> a \<in> set (neighbors (build_graph routes g) b)"
proof (induction routes arbitrary: g)
  case Nil
  then show ?case by simp
next
  case (Cons r routes)
  show ?case
  proof (cases "r = (a, b)")
    case True
    let ?g = "setdefault_append (setdefault_append g a b) b a"
    have "b \<in> set (neighbors ?g a)" "a \<in> set (neighbors ?g b)"
      by (auto simp: neighbors_setdefault_append)
    then show ?thesis using build_graph_mono[of ?g _ routes] True by auto
  next
    case False
    with Cons.prems have "(a, b) \<in> set routes" by simp
    from Cons.IH[OF this] show ?thesis by (cases r) simp
  qed
qed

text \<open>
  C8: the adjacency the driver builds from an edge list (starting from the empty
  dictionary) is symmetric: for every edge \<open>(a, b)\<close> of the list, \<open>b\<close> is among the
  neighbours of \<open>a\<close> and \<open>a\<close> is among the neighbours of \<open>b\<close>.
\<close>

theorem adjacency_symmetric:
  "(a, b) \<in> set routes \<Longrightarrow>
     b \<in> set (neighbors (build_graph routes Map.empty) a) \<and>
     a \<in> set (neighbors (build_graph routes Map.empty) b)"
  by (rule build_graph_edge)

theorem adjacency_symmetric_witness:
  "(''Earth'', ''Mars'') \<in> set [(''Earth'', ''Mars''), (''Earth'', ''Venus'')] \<and>
   ''Mars'' \<in> set (neighbors (build_graph [(''Earth'', ''Mars''), (''Earth'', ''Venus'')] Map.empty) ''Earth'') \<and>
   ''Earth'' \<in> set (neighbors (build_graph [(''Earth'', ''Mars''), (''Earth'', ''Venus'')] Map.empty) ''Mars'')"
  using adjacency_symmetric [of "''Earth''" "''Mars''" "[(''Earth'', ''Mars''), (''Earth'', ''Venus'')]"]
  by simp

lemma setup_ships_append:
  "setup_ships graph planets (xs @ ys) st =
     (case setup_ships graph planets xs st of
        None \<Rightarrow> None
      | Some (Inl e) \<Rightarrow> Some (Inl e)
      | Some (Inr st') \<Rightarrow> setup_ships graph planets ys st')"
proof (induction xs arbitrary: st)
  case Nil
  then show ?case by simp
next
  case (Cons x xs)
  show ?case
    by (simp add: Cons.IH Let_def split: option.splits sum.splits list.splits prod.splits)
qed

lemma setup_ships_unroutable:
  "planets (cfg_start s) = Some p0 \<Longrightarrow>
   fastest_path graph (cfg_start s) (cfg_end s) planets (cfg_speed s) = Some (Inr None) \<Longrightarrow>
   setup_ships graph planets (s # rest) st = setup_ships graph planets rest st"
  by (simp add: Ship_def)

text \<open>
  C7: when the router returns no path for a configured agent, the loop of \<open>main\<close> goes on
  with the list of active ships and the sink unchanged: \<open>set_path\<close> is not called for
  that agent, it is not appended to the active ships (the only ships the frame loop
  ticks), and the whole setup, for the agents before and after it, is the one of the
  same configuration without that agent. Nothing is raised for it.
\<close>

theorem unroutable_agent_excluded:
  assumes "planets (cfg_start s) = Some p0"
    and "fastest_path graph (cfg_start s) (cfg_end s) planets (cfg_speed s) = Some (Inr None)"
  shows "setup_ships graph planets (before @ s # after) st =
         setup_ships graph planets (before @ after) st"
  by (simp only: setup_ships_append [of _ _ before] setup_ships_unroutable [OF assms])

lemma sqrt_squares: "sqrt 9 = 3" "sqrt 16 = 4" "sqrt 25 = 5"
  using real_sqrt_abs [of 3] real_sqrt_abs [of 4] real_sqrt_abs [of 5] by simp_all

lemmas router_eval =
  fastest_path_def search.simps heappop_def heappush_def neighbors_def euclid_def
  sqrt_squares Let_def setdefault_append_def

lemma unreachable_example:
  "fastest_path (build_graph [(1, 2)] Map.empty) (1::nat) 3
     [1 \<mapsto> (0, 0), 2 \<mapsto> (3, 4), 3 \<mapsto> (100, 100)] 5 = Some (Inr None)"
  by (simp add: router_eval)

theorem unroutable_agent_excluded_witness:
  "[1 \<mapsto> (0, 0), 2 \<mapsto> (3, 4), 3 \<mapsto> (100, 100)]
     (cfg_start \<lparr>cfg_name = ''Lost'', cfg_start = 1::nat, cfg_end = 3, cfg_speed = 5\<rparr>) =
     Some (0, 0) \<and>
   fastest_path (build_graph [(1, 2)] Map.empty) (1::nat) 3
     [1 \<mapsto> (0, 0), 2 \<mapsto> (3, 4), 3 \<mapsto> (100, 100)] 5 = Some (Inr None) \<and>
   setup_ships (build_graph [(1, 2)] Map.empty)
     [1 \<mapsto> (0, 0), 2 \<mapsto> (3, 4), 3 \<mapsto> (100, 100)]
     [\<lparr>cfg_name = ''Lost'', cfg_start = 1::nat, cfg_end = 3, cfg_speed = 5\<rparr>,
      \<lparr>cfg_name = ''Apollo'', cfg_start = 1, cfg_end = 2, cfg_speed = 5\<rparr>] ([], []) =
   setup_ships (build_graph [(1, 2)] Map.empty)
     [1 \<mapsto> (0, 0), 2 \<mapsto> (3, 4), 3 \<mapsto> (100, 100)]
     [\<lparr>cfg_name = ''Apollo'', cfg_start = 1::nat, cfg_end = 2, cfg_speed = 5\<rparr>] ([], [])"
proof -
  have h1: "[1 \<mapsto> (0, 0), 2 \<mapsto> (3, 4), 3 \<mapsto> (100, 100::real)]
      (cfg_start \<lparr>cfg_name = ''Lost'', cfg_start = 1::nat, cfg_end = 3, cfg_speed = 5\<rparr>) =
      Some (0, 0::real)"
    by simp
  have h2: "fastest_path (build_graph [(1, 2)] Map.empty)
      (cfg_start \<lparr>cfg_name = ''Lost'', cfg_start = 1::nat, cfg_end = 3, cfg_speed = 5\<rparr>)
      (cfg_end \<lparr>cfg_name = ''Lost'', cfg_start = 1::nat, cfg_end = 3, cfg_speed = 5\<rparr>)
      [1 \<mapsto> (0, 0), 2 \<mapsto> (3, 4), 3 \<mapsto> (100, 100)]
      (cfg_speed \<lparr>cfg_name = ''Lost'', cfg_start = 1::nat, cfg_end = 3, cfg_speed = 5\<rparr>) =
      Some (Inr None)"
    using unreachable_example by simp
  show ?thesis
    using unroutable_agent_excluded [OF h1 h2, of "[]"
        "[\<lparr>cfg_name = ''Apollo'', cfg_start = 1, cfg_end = 2, cfg_speed = 5\<rparr>]" "([], [])"]
      unreachable_example
    by (simp del: setup_ships.simps)
qed

section \<open>Optimality and reachability of the router\<close>

lemma is_path_snoc:
  "p \<noteq> [] \<Longrightarrow> is_path g (p @ [x]) \<longleftrightarrow> is_path g p \<and> x \<in> set (neighbors g (last p))"
  by (induction g p rule: is_path.induct) auto

lemma total_time_snoc:
  "p \<noteq> [] \<Longrightarrow> total_time ps v (p @ [x]) =
     (case (total_time ps v p, travel_time ps v (last p) x) of
        (Some t, Some w) \<Rightarrow> Some (t + w) | _ \<Rightarrow> None)"
  by (induction ps v p rule: total_time.induct) (auto split: option.splits)

lemma travel_time_nonneg: "0 < v \<Longrightarrow> travel_time ps v x y = Some w \<Longrightarrow> 0 \<le> w"
  by (auto simp: travel_time_def euclid_def split: option.splits)

lemma push_neighbors_Inr:
  "push_neighbors ns node t pth ps v q = Inr q2 \<Longrightarrow>
     (\<forall>nb\<in>set ns. \<exists>w. travel_time ps v node nb = Some w) \<and>
     set q2 = set q \<union> (\<lambda>nb. (t + the (travel_time ps v node nb), nb, pth @ [nb])) ` set ns \<and>
     length q2 = length q + length ns"
proof (induction ns arbitrary: q)
  case Nil
  then show ?case by simp
next
  case (Cons nb ns)
  from Cons.prems obtain pn pc where
    pn: "ps nb = Some pn" and pc: "ps node = Some pc" and v: "v \<noteq> 0"
    and r: "push_neighbors ns node t pth ps v (heappush q (t + euclid pn pc / v, nb, pth @ [nb])) = Inr q2"
    by (auto simp: Let_def split: option.splits if_splits)
  have tt: "travel_time ps v node nb = Some (euclid pn pc / v)"
    by (simp add: travel_time_def pn pc)
  from Cons.IH [OF r] show ?case
    by (auto simp: tt heappush_def)
qed

lemma push_neighbors_ok:
  "v \<noteq> 0 \<Longrightarrow> \<forall>nb\<in>set ns. ps nb \<noteq> None \<Longrightarrow> ns \<noteq> [] \<longrightarrow> ps node \<noteq> None \<Longrightarrow>
     \<exists>q2. push_neighbors ns node t pth ps v q = Inr q2"
  by (induction ns arbitrary: q) (auto simp: Let_def)

lemma heappop_facts:
  assumes "q \<noteq> []" "heappop q = (m, q1)"
  shows "m \<in> set q" "\<forall>e\<in>set q. m \<le> e" "\<forall>e\<in>set q. e \<noteq> m \<longrightarrow> e \<in> set q1"
    "set q1 \<subseteq> set q" "Suc (length q1) = length q"
proof -
  have m: "m = Min (set q)" and q1: "q1 = remove1 m q"
    using assms(2) by (auto simp add: heappop_def Let_def)
  show a: "m \<in> set q" using assms(1) by (simp add: m)
  show "\<forall>e\<in>set q. m \<le> e" by (simp add: m)
  show "\<forall>e\<in>set q. e \<noteq> m \<longrightarrow> e \<in> set q1" by (simp add: q1)
  show "set q1 \<subseteq> set q" using set_remove1_subset by (simp add: q1)
  have "0 < length q" using assms(1) by simp
  then show "Suc (length q1) = length q" using a
    by (simp add: q1 length_remove1 del: length_greater_0_conv)
qed

lemma entry_le_fst: "(e::'n::linorder entry) \<le> e' \<Longrightarrow> fst e \<le> fst e'"
  by (auto simp: less_eq_prod_def)


lemma covered_step:
  assumes "covered q V x b"
    and "\<forall>e\<in>set q. e \<noteq> m \<longrightarrow> e \<in> set q'"
    and "\<forall>y s. V y = Some s \<longrightarrow> (\<exists>s'. V' y = Some s' \<and> s' \<le> s)"
    and "\<exists>s'. V' (fst (snd m)) = Some s' \<and> s' \<le> fst m"
  shows "covered q' V' x b"
proof -
  from assms(1) consider
    (queue) e where "e \<in> set q" "fst (snd e) = x" "fst e \<le> b"
    | (visited) s where "V x = Some s" "s \<le> b"
    by (auto simp: covered_def)
  then show ?thesis
  proof cases
    case queue
    show ?thesis
    proof (cases "e = m")
      case True
      with assms(4) queue obtain s' where "V' x = Some s'" "s' \<le> b" by auto
      then show ?thesis by (auto simp: covered_def)
    next
      case False
      with assms(2) queue have "e \<in> set q'" by blast
      with queue show ?thesis by (auto simp: covered_def)
    qed
  next
    case visited
    with assms(3) obtain s' where "V' x = Some s'" "s' \<le> s" by blast
    with visited show ?thesis by (auto simp: covered_def)
  qed
qed

lemma inv_skip:
  assumes inv: "search_inv g ps v start dest q V"
    and ne: "q \<noteq> []" and pop: "heappop q = ((t, u, p), q1)"
    and vis: "V u = Some tv" "tv \<le> t"
  shows "search_inv g ps v start dest q1 V"
proof -
  note hp = heappop_facts [OF ne pop]
  have cov: "covered q1 V x b" if "covered q V x b" for x b
    using that
  proof (rule covered_step)
    show "\<forall>e\<in>set q. e \<noteq> (t, u, p) \<longrightarrow> e \<in> set q1" using hp(3) .
    show "\<forall>y s. V y = Some s \<longrightarrow> (\<exists>s'. V y = Some s' \<and> s' \<le> s)" by simp
    show "\<exists>s'. V (fst (snd (t, u, p))) = Some s' \<and> s' \<le> fst (t, u, p)" using vis by simp
  qed
  show ?thesis
    using inv hp(4) cov unfolding search_inv_def by (auto 4 3)
qed

lemma inv_expand:
  assumes inv: "search_inv g ps v start dest q V"
    and ne: "q \<noteq> []" and pop: "heappop q = ((t, u, p), q1)"
    and nd: "u \<noteq> dest"
    and nv: "\<not> (case V u of Some tv \<Rightarrow> tv \<le> t | None \<Rightarrow> False)"
    and push: "push_neighbors (neighbors g u) u t p ps v q1 = Inr q2"
  shows "search_inv g ps v start dest q2 (V(u \<mapsto> t))"
proof -
  note hp = heappop_facts [OF ne pop]
  note pn = push_neighbors_Inr [OF push]
  have sub: "set q1 \<subseteq> set q2" using pn by auto
  have ent: "connects g start u p" "total_time ps v p = Some t"
    using inv hp(1) unfolding search_inv_def by auto
  have pne: "p \<noteq> []" using ent(1) by (auto simp: connects_def)
  have cov: "covered q2 (V(u \<mapsto> t)) x b" if "covered q V x b" for x b
    using that
  proof (rule covered_step)
    show "\<forall>e\<in>set q. e \<noteq> (t, u, p) \<longrightarrow> e \<in> set q2" using hp(3) sub by auto
    show "\<forall>y s. V y = Some s \<longrightarrow> (\<exists>s'. (V(u \<mapsto> t)) y = Some s' \<and> s' \<le> s)"
      using nv by (auto split: option.splits)
    show "\<exists>s'. (V(u \<mapsto> t)) (fst (snd (t, u, p))) = Some s' \<and> s' \<le> fst (t, u, p)" by simp
  qed
  have i1: "\<forall>e\<in>set q2. connects g start (fst (snd e)) (snd (snd e)) \<and>
        total_time ps v (snd (snd e)) = Some (fst e)"
  proof
    fix e assume "e \<in> set q2"
    then consider "e \<in> set q1"
      | nb where "nb \<in> set (neighbors g u)" "e = (t + the (travel_time ps v u nb), nb, p @ [nb])"
      using pn by auto
    then show "connects g start (fst (snd e)) (snd (snd e)) \<and>
        total_time ps v (snd (snd e)) = Some (fst e)"
    proof cases
      case 1
      then show ?thesis using inv hp(4) unfolding search_inv_def by auto
    next
      case 2
      from pn 2(1) obtain w where w: "travel_time ps v u nb = Some w" by blast
      have "connects g start nb (p @ [nb])"
        using ent(1) 2(1) pne by (auto simp: connects_def is_path_snoc)
      moreover have "total_time ps v (p @ [nb]) = Some (t + w)"
        using ent pne w by (auto simp: total_time_snoc connects_def)
      ultimately show ?thesis by (simp add: 2(2) w)
    qed
  qed
  have i2: "covered q2 (V(u \<mapsto> t)) start 0"
    using inv cov unfolding search_inv_def by blast
  have i3: "covered q2 (V(u \<mapsto> t)) x (tu + w)"
    if "(V(u \<mapsto> t)) y = Some tu" "x \<in> set (neighbors g y)" "travel_time ps v y x = Some w"
    for y tu x w
  proof (cases "y = u")
    case True
    with that have "(t + w, x, p @ [x]) \<in> set q2" "tu = t"
      using pn by (auto simp: image_iff intro!: bexI [of _ x])
    then show ?thesis by (auto simp: covered_def intro!: bexI [of _ "(t + w, x, p @ [x])"])
  next
    case False
    with that have "V y = Some tu" by simp
    with that inv have "covered q V x (tu + w)" unfolding search_inv_def by blast
    then show ?thesis by (rule cov)
  qed
  have i4: "(V(u \<mapsto> t)) dest = None"
    using inv nd unfolding search_inv_def by simp
  show ?thesis
    unfolding search_inv_def using i1 i2 i3 i4 by blast
qed


lemma path_covered:
  assumes inv: "search_inv g ps v start dest q V" and v: "0 < v"
  shows "connects g start x p \<Longrightarrow> total_time ps v p = Some T \<Longrightarrow>
           (\<exists>e\<in>set q. fst e \<le> T) \<or> (\<exists>t. V x = Some t \<and> t \<le> T)"
proof (induction p arbitrary: x T rule: rev_induct)
  case Nil
  then show ?case by (simp add: connects_def)
next
  case (snoc y ys)
  show ?case
  proof (cases "ys = []")
    case True
    with snoc.prems have "x = start" "T = 0" by (auto simp add: connects_def)
    moreover have "covered q V start 0" using inv unfolding search_inv_def by blast
    ultimately show ?thesis by (auto simp: covered_def)
  next
    case False
    from snoc.prems(1) False have xy: "x = y" and c: "connects g start (last ys) ys"
      and nb: "y \<in> set (neighbors g (last ys))"
      by (auto simp: connects_def is_path_snoc)
    from snoc.prems(2) False obtain T1 w where
      t1: "total_time ps v ys = Some T1" and w: "travel_time ps v (last ys) y = Some w"
      and T: "T = T1 + w"
      by (auto simp: total_time_snoc split: option.splits)
    have w0: "0 \<le> w" using travel_time_nonneg [OF v w] .
    from snoc.IH [OF c t1] show ?thesis
    proof
      assume "\<exists>e\<in>set q. fst e \<le> T1"
      then show ?thesis using w0 T by force
    next
      assume "\<exists>t. V (last ys) = Some t \<and> t \<le> T1"
      then obtain t where t: "V (last ys) = Some t" "t \<le> T1" by blast
      with inv nb w have "covered q V y (t + w)" unfolding search_inv_def by blast
      then show ?thesis using t(2) T xy by (force simp: covered_def)
    qed
  qed
qed

lemma found_post:
  assumes inv: "search_inv g ps v start dest q V" and v: "0 < v"
    and ne: "q \<noteq> []" and pop: "heappop q = ((t, dest, p), q1)"
  shows "search_post g ps v start dest (Some p)"
proof -
  note hp = heappop_facts [OF ne pop]
  have ent: "connects g start dest p" "total_time ps v p = Some t"
    using inv hp(1) unfolding search_inv_def by auto
  have nv: "V dest = None" using inv unfolding search_inv_def by blast
  have "t \<le> t'" if "connects g start dest p'" "total_time ps v p' = Some t'" for p' t'
  proof -
    from path_covered [OF inv v that] nv obtain e where e: "e \<in> set q" "fst e \<le> t'" by auto
    with hp(2) have "(t, dest, p) \<le> e" by blast
    from entry_le_fst [OF this] e(2) show ?thesis by simp
  qed
  with ent show ?thesis by (auto simp: search_post_def)
qed

lemma empty_post:
  assumes inv: "search_inv g ps v start dest [] V" and v: "0 < v"
  shows "search_post g ps v start dest None"
proof -
  have nv: "V dest = None" using inv unfolding search_inv_def by blast
  have "total_time ps v p = None" if "connects g start dest p" for p
  proof (cases "total_time ps v p")
    case (Some T)
    from path_covered [OF inv v that Some] nv show ?thesis by simp
  qed simp
  then show ?thesis by (simp add: search_post_def)
qed

lemma init_inv: "search_inv g ps v start dest [(0, start, [start])] Map.empty"
  by (simp add: search_inv_def connects_def covered_def)

lemma search_partial_aux:
  assumes run: "search g0 dest0 ps0 v0 q0 V0 = Some y0"
  shows "search_inv g0 ps0 v0 start dest0 q0 V0 \<longrightarrow> 0 < v0 \<longrightarrow>
     (\<forall>r. y0 = Inr r \<longrightarrow> search_post g0 ps0 v0 start dest0 r)"
proof (rule search.raw_induct [where P = "\<lambda>g dest ps v q V y.
    search_inv g ps v start dest q V \<longrightarrow> 0 < v \<longrightarrow>
      (\<forall>r. y = Inr r \<longrightarrow> search_post g ps v start dest r)", OF _ run], goal_cases)
  case (1 f g dest ps v q V y)
  note IH = 1(1) and body = 1(2)
  show ?case
  proof (intro impI)
    assume inv: "search_inv g ps v start dest q V" and v: "0 < v"
    show "\<forall>r. y = Inr r \<longrightarrow> search_post g ps v start dest r"
    proof (cases "q = []")
      case True
      with body have "y = Inr None" by simp
      moreover have "search_post g ps v start dest None"
        using empty_post [of g ps v start dest V] inv v True by simp
      ultimately show ?thesis by simp
    next
      case False
      obtain t u p q1 where pop: "heappop q = ((t, u, p), q1)"
        by (metis prod.exhaust)
      show ?thesis
      proof (cases "u = dest")
        case True
        with body False pop have "y = Inr (Some p)" by simp
        moreover have "search_post g ps v start dest (Some p)"
          using found_post [OF inv v False] pop True by simp
        ultimately show ?thesis by simp
      next
        case nd: False
        show ?thesis
        proof (cases "case V u of Some tv \<Rightarrow> tv \<le> t | None \<Rightarrow> False")
          case True
          then obtain tv where tv: "V u = Some tv" "tv \<le> t" by (auto split: option.splits)
          from body False pop nd True have rec: "f g dest ps v q1 V = Some y" by simp
          have "search_inv g ps v start dest q1 V" by (rule inv_skip [OF inv False pop tv])
          with IH [OF rec] v show ?thesis by simp
        next
          case nv: False
          show ?thesis
          proof (cases "push_neighbors (neighbors g u) u t p ps v q1")
            case (Inl e)
            with body False pop nd nv have "y = Inl e" by simp
            then show ?thesis by simp
          next
            case (Inr q2)
            with body False pop nd nv have rec: "f g dest ps v q2 (V(u \<mapsto> t)) = Some y"
              by simp
            have "search_inv g ps v start dest q2 (V(u \<mapsto> t))"
              by (rule inv_expand [OF inv False pop nd nv Inr])
            with IH [OF rec] v show ?thesis by simp
          qed
        qed
      qed
    qed
  qed
qed


lemma fastest_path_post:
  assumes "0 < v" "fastest_path g start dest ps v = Some (Inr r)"
  shows "search_post g ps v start dest r"
  using search_partial_aux [of g dest ps v "[(0, start, [start])]" Map.empty "Inr r" start]
    assms init_inv [of g ps v start dest]
  by (simp add: fastest_path_def)


lemma term_skip:
  assumes "term_inv N q V" "q \<noteq> []" "heappop q = (m, q1)"
  shows "term_inv N q1 V"
  using assms(1) heappop_facts(4) [OF assms(2,3)] unfolding term_inv_def by blast

lemma term_expand:
  assumes ti: "term_inv N q V" and v: "0 < v"
    and ne: "q \<noteq> []" and pop: "heappop q = ((t, u, p), q1)"
    and push: "push_neighbors (neighbors g u) u t p ps v q1 = Inr q2"
    and nb: "set (neighbors g u) \<subseteq> N"
  shows "term_inv N q2 (V(u \<mapsto> t))"
proof -
  note hp = heappop_facts [OF ne pop]
  note pn = push_neighbors_Inr [OF push]
  have uN: "u \<in> N" using ti hp(1) unfolding term_inv_def by force
  have new: "fst (snd e) \<in> N \<and> t \<le> fst e" if "e \<in> set q2" "e \<notin> set q1" for e
  proof -
    from that pn obtain x where x: "x \<in> set (neighbors g u)"
      "e = (t + the (travel_time ps v u x), x, p @ [x])" by auto
    from pn x(1) obtain w where w: "travel_time ps v u x = Some w" by blast
    from travel_time_nonneg [OF v w] x nb w show ?thesis by auto
  qed
  have old: "t \<le> fst e" if "e \<in> set q1" for e
    using hp(2,4) that entry_le_fst [of "(t, u, p)" e] by auto
  have d: "dom (V(u \<mapsto> t)) \<subseteq> N" using ti uN unfolding term_inv_def by auto
  have n: "\<forall>e\<in>set q2. fst (snd e) \<in> N"
    using new ti hp(4) unfolding term_inv_def by blast
  have b: "tu \<le> fst e" if "(V(u \<mapsto> t)) y = Some tu" "e \<in> set q2" for y tu e
  proof (cases "y = u")
    case True
    with that have "tu = t" by simp
    with new old that(2) show ?thesis by blast
  next
    case False
    with that have vy: "V y = Some tu" by simp
    show ?thesis
    proof (cases "e \<in> set q1")
      case True
      with vy ti hp(4) show ?thesis unfolding term_inv_def by blast
    next
      case False
      from vy ti hp(1) have "tu \<le> t" unfolding term_inv_def by force
      with new [OF that(2) False] show ?thesis by simp
    qed
  qed
  show ?thesis unfolding term_inv_def using d n b by blast
qed

lemma search_terminates:
  assumes fin: "finite N" and v: "0 < v"
    and pos: "\<forall>x\<in>N. ps x \<noteq> None"
    and nbs: "\<forall>u. set (neighbors g u) \<subseteq> N"
  shows "term_inv N q V \<Longrightarrow> \<exists>y. search g dest ps v q V = Some y \<and> (\<forall>e. y \<noteq> Inl e)"
proof (induction "card (N - dom V)" arbitrary: q V rule: less_induct)
  case outer: less
  from outer.prems show ?case
  proof (induction "length q" arbitrary: q rule: less_induct)
    case inner: less
    show ?case
    proof (cases "q = []")
      case True
      then show ?thesis by (subst search.simps) simp
    next
      case False
      obtain t u p q1 where pop: "heappop q = ((t, u, p), q1)"
        by (metis prod.exhaust)
      note hp = heappop_facts [OF False pop]
      show ?thesis
      proof (cases "u = dest")
        case True
        then show ?thesis using False pop by (subst search.simps) simp
      next
        case nd: False
        show ?thesis
        proof (cases "V u")
          case (Some tv)
          with inner.prems hp(1) have "tv \<le> t" unfolding term_inv_def by force
          then have un: "search g dest ps v q V = search g dest ps v q1 V"
            using False pop nd Some by (subst search.simps) simp
          have "length q1 < length q" using hp(5) by simp
          from inner.hyps [OF this term_skip [OF inner.prems False pop]]
          show ?thesis by (simp add: un)
        next
          case None
          have uN: "u \<in> N" using inner.prems hp(1) unfolding term_inv_def by force
          have nb: "set (neighbors g u) \<subseteq> N" using nbs by blast
          have "v \<noteq> 0" using v by simp
          moreover have "\<forall>x\<in>set (neighbors g u). ps x \<noteq> None" using pos nb by blast
          moreover have "neighbors g u \<noteq> [] \<longrightarrow> ps u \<noteq> None" using pos uN by blast
          ultimately obtain q2 where push: "push_neighbors (neighbors g u) u t p ps v q1 = Inr q2"
            using push_neighbors_ok [of v "neighbors g u" ps u t p q1] by blast
          have un: "search g dest ps v q V = search g dest ps v q2 (V(u \<mapsto> t))"
            using False pop nd None push by (subst search.simps) simp
          have eq: "N - dom (V(u \<mapsto> t)) = (N - dom V) - {u}" by auto
          have "u \<in> N - dom V" using uN None by auto
          moreover have "finite (N - dom V)" using fin by simp
          ultimately have "card ((N - dom V) - {u}) < card (N - dom V)"
            by (rule card_Diff1_less [rotated])
          then have "card (N - dom (V(u \<mapsto> t))) < card (N - dom V)"
            by (simp only: eq)
          from outer.hyps [OF this term_expand [OF inner.prems v False pop push nb]]
          show ?thesis by (simp add: un)
        qed
      qed
    qed
  qed
qed


lemma total_time_defined:
  "is_path g p \<Longrightarrow> ps (hd p) \<noteq> None \<Longrightarrow> \<forall>u. \<forall>x\<in>set (neighbors g u). ps x \<noteq> None \<Longrightarrow>
     total_time ps v p \<noteq> None"
proof (induction g p rule: is_path.induct)
  case (3 g x y r)
  note IH = 3(1) and pth = 3(2) and px = 3(3) and nb = 3(4)
  from pth have yx: "y \<in> set (neighbors g x)" and rest: "is_path g (y # r)" by simp_all
  from nb yx have py: "ps y \<noteq> None" by blast
  from IH rest py nb have "total_time ps v (y # r) \<noteq> None" by simp
  moreover have "travel_time ps v x y \<noteq> None"
    using px py by (auto simp: travel_time_def split: option.splits)
  ultimately show ?case by (auto split: option.splits)
qed simp_all

text \<open>
  C3: for a topology (a finite adjacency whose neighbour entries all have coordinates, and
  a start that has coordinates) and a speed greater than 0, \<open>fastest_path\<close> returns:
  it gives \<open>None\<close> exactly when no edge-path connects start to end, and otherwise an
  edge-path whose first element is start and whose last element is end.
\<close>

theorem fastest_path_reachability:
  assumes "0 < ship_speed" "finite (dom graph)" "start \<in> dom positions"
    and "\<forall>u ns. graph u = Some ns \<longrightarrow> set ns \<subseteq> dom positions"
  shows "\<exists>r. fastest_path graph start dest positions ship_speed = Some (Inr r) \<and>
           (r = None \<longleftrightarrow> \<not> (\<exists>p. connects graph start dest p)) \<and>
           (\<forall>p. r = Some p \<longrightarrow> p \<noteq> [] \<and> hd p = start \<and> last p = dest \<and> is_path graph p)"
proof -
  let ?N = "insert start (\<Union>ns\<in>ran graph. set ns)"
  have fin: "finite ?N" using finite_ran [OF assms(2)] by simp
  have "\<forall>x\<in>?N. x \<in> dom positions"
    using assms(3,4) unfolding ran_def by blast
  then have pos: "\<forall>x\<in>?N. positions x \<noteq> None" by blast
  have nbs: "\<forall>u. set (neighbors graph u) \<subseteq> ?N"
  proof
    fix u
    show "set (neighbors graph u) \<subseteq> ?N"
    proof (cases "graph u")
      case None
      then show ?thesis by (simp add: neighbors_def)
    next
      case (Some ns)
      then have "ns \<in> ran graph" by (rule ranI)
      then show ?thesis using Some by (auto simp: neighbors_def)
    qed
  qed
  have nbp: "\<forall>u. \<forall>x\<in>set (neighbors graph u). positions x \<noteq> None"
    using pos nbs by blast
  have ti: "term_inv ?N [(0, start, [start])] Map.empty"
    by (simp add: term_inv_def)
  from search_terminates [OF fin assms(1) pos nbs ti, of dest]
  obtain r where run: "fastest_path graph start dest positions ship_speed = Some (Inr r)"
    unfolding fastest_path_def by (metis sum.exhaust)
  have post: "search_post graph positions ship_speed start dest r"
    by (rule fastest_path_post [OF assms(1) run])
  have def: "total_time positions ship_speed p \<noteq> None" if "connects graph start dest p" for p
    using that assms(3) nbp total_time_defined [of graph p positions ship_speed]
    by (auto simp: connects_def)
  have a: "r = None \<longleftrightarrow> \<not> (\<exists>p. connects graph start dest p)"
    using post def by (auto simp: search_post_def split: option.splits)
  have b: "\<forall>p. r = Some p \<longrightarrow> p \<noteq> [] \<and> hd p = start \<and> last p = dest \<and> is_path graph p"
    using post by (auto simp: search_post_def connects_def)
  show ?thesis using run a b by blast
qed

lemma triangle_example:
  "fastest_path ([0::nat \<mapsto> [1, 2], 1 \<mapsto> [0, 2], 2 \<mapsto> [0, 1::nat]]) 0 2 ([0::nat \<mapsto> (0, 0), 1 \<mapsto> (3, 0), 2 \<mapsto> (3, 4::real)]) 1 = Some (Inr (Some [0, 2]))"
  by (simp add: router_eval)


theorem fastest_path_reachability_witness:
  "(0::real) < 1 \<and> finite (dom ([0::nat \<mapsto> [1, 2], 1 \<mapsto> [0, 2], 2 \<mapsto> [0, 1::nat]])) \<and> 0 \<in> dom ([0::nat \<mapsto> (0, 0), 1 \<mapsto> (3, 0), 2 \<mapsto> (3, 4::real)]) \<and>
   fastest_path ([0::nat \<mapsto> [1, 2], 1 \<mapsto> [0, 2], 2 \<mapsto> [0, 1::nat]]) 0 2 ([0::nat \<mapsto> (0, 0), 1 \<mapsto> (3, 0), 2 \<mapsto> (3, 4::real)]) 1 = Some (Inr (Some [0, 2])) \<and>
   [0, 2::nat] \<noteq> [] \<and> hd [0, 2::nat] = 0 \<and> last [0, 2::nat] = 2 \<and> is_path ([0::nat \<mapsto> [1, 2], 1 \<mapsto> [0, 2], 2 \<mapsto> [0, 1::nat]]) [0, 2]"
proof -
  have h1: "(0::real) < 1" by simp
  have h2: "finite (dom ([0::nat \<mapsto> [1, 2], 1 \<mapsto> [0, 2], 2 \<mapsto> [0, 1::nat]]))" by simp
  have h3: "0 \<in> dom ([0::nat \<mapsto> (0, 0), 1 \<mapsto> (3, 0), 2 \<mapsto> (3, 4::real)])" by simp
  have h4: "\<forall>u ns. ([0::nat \<mapsto> [1, 2], 1 \<mapsto> [0, 2], 2 \<mapsto> [0, 1::nat]]) u = Some ns \<longrightarrow> set ns \<subseteq> dom ([0::nat \<mapsto> (0, 0), 1 \<mapsto> (3, 0), 2 \<mapsto> (3, 4::real)])"
    by (auto split: if_splits)
  from fastest_path_reachability [OF h1 h2 h3 h4, of 2]
  obtain r where
    run: "fastest_path ([0::nat \<mapsto> [1, 2], 1 \<mapsto> [0, 2], 2 \<mapsto> [0, 1::nat]]) 0 2 ([0::nat \<mapsto> (0, 0), 1 \<mapsto> (3, 0), 2 \<mapsto> (3, 4::real)]) 1 = Some (Inr r)"
    and pth: "\<forall>p. r = Some p \<longrightarrow> p \<noteq> [] \<and> hd p = 0 \<and> last p = 2 \<and> is_path ([0::nat \<mapsto> [1, 2], 1 \<mapsto> [0, 2], 2 \<mapsto> [0, 1::nat]]) p"
    by (elim exE conjE)
  from run triangle_example have "r = Some [0, 2]" by simp
  with pth have "[0, 2::nat] \<noteq> [] \<and> hd [0, 2::nat] = 0 \<and> last [0, 2::nat] = 2 \<and> is_path ([0::nat \<mapsto> [1, 2], 1 \<mapsto> [0, 2], 2 \<mapsto> [0, 1::nat]]) [0, 2]"
    by blast
  with h1 h2 h3 triangle_example show ?thesis by blast
qed

end
